theory Spec2Isabelle
  imports Main "HOL-Library.Word"
begin

section \<open>Go values\<close>

text \<open>
  View keys and values are Go \<^verbatim>\<open>interface{}\<close> values holding decoded JSON. The nil
  interface (JSON null, and also "parameter not given") is \<open>None\<close>; every other value is
  \<open>Some\<close> of a \<open>jval\<close>. Numbers are kept abstract (\<open>'n\<close>): no property below
  depends on floating point arithmetic.
\<close>

datatype 'n jval =
    JBool bool
  | JNumber 'n
  | JString string
  | JArray "'n jval option list"
  | JObject "(string \<times> 'n jval option) list"

type_synonym 'n iface = "'n jval option"

text \<open>
  Failures: the run-time panics of Go that the view code can reach, and ordinary
  \<^verbatim>\<open>error\<close> values (returned by the script engine and by the store).
\<close>

datatype error =
    SliceBoundsOutOfRange
  | IndexOutOfRange
  | NilPointerDereference
  | Err string
  | Wrapped string error

subsection \<open>Slices\<close>

text \<open>
  A Go slice is a window on a backing array: \<open>elems\<close> are the \<^verbatim>\<open>len(s)\<close> visible
  elements, \<open>spare\<close> the elements of the backing array between \<^verbatim>\<open>len(s)\<close> and
  \<^verbatim>\<open>cap(s)\<close>. Re-slicing \<^verbatim>\<open>s[:j]\<close> is allowed up to the capacity and then
  exposes spare elements; beyond the capacity it panics. \<^verbatim>\<open>s[i:]\<close> needs
  \<^verbatim>\<open>i <= len(s)\<close>.
\<close>

record 'a slice =
  elems :: "'a list"
  spare :: "'a list"

definition len :: "'a slice \<Rightarrow> nat" where
  "len s = length (elems s)"

definition cap :: "'a slice \<Rightarrow> nat" where
  "cap s = length (elems s) + length (spare s)"

definition slice_upto :: "'a slice \<Rightarrow> nat \<Rightarrow> error + 'a slice" where
  "slice_upto s j =
     (if j \<le> len s then
        Inr \<lparr>elems = take j (elems s), spare = drop j (elems s) @ spare s\<rparr>
      else if j \<le> cap s then
        Inr \<lparr>elems = elems s @ take (j - len s) (spare s),
             spare = drop (j - len s) (spare s)\<rparr>
      else Inl SliceBoundsOutOfRange)"

definition slice_from :: "'a slice \<Rightarrow> nat \<Rightarrow> error + 'a slice" where
  "slice_from s i =
     (if i \<le> len s then Inr \<lparr>elems = drop i (elems s), spare = spare s\<rparr>
      else Inl SliceBoundsOutOfRange)"

definition index :: "'a slice \<Rightarrow> nat \<Rightarrow> error + 'a" where
  "index s i = (if i < len s then Inr (elems s ! i) else Inl IndexOutOfRange)"

subsection \<open>sort.Search\<close>

text \<open>
  The binary search of Go's standard library, as \<^verbatim>\<open>processViewResult\<close> calls it:
  \<^verbatim>\<open>i, j := 0, n; for i < j { h := int(uint(i+j) >> 1); if !f(h) { i = h + 1 } else { j = h } }; return i\<close>.
  The predicate may panic (it dereferences a row pointer), so it returns a sum.
\<close>

function Search_loop :: "(nat \<Rightarrow> error + bool) \<Rightarrow> nat \<Rightarrow> nat \<Rightarrow> error + nat" where
  "Search_loop f i j =
     (if i < j then
        (let h = (i + j) div 2 in
         case f h of
           Inl e \<Rightarrow> Inl e
         | Inr b \<Rightarrow> if \<not> b then Search_loop f (h + 1) j else Search_loop f i h)
      else Inr i)"
  by pat_completeness auto
termination
  by (relation "measure (\<lambda>(f, i, j). j - i)") auto

definition Search :: "nat \<Rightarrow> (nat \<Rightarrow> error + bool) \<Rightarrow> error + nat" where
  "Search n f = Search_loop f 0 n"

section \<open>View rows, parameters and results\<close>

text \<open>
  \<^verbatim>\<open>ViewParams\<close>: the fields the view code reads. \<open>Key\<close>, \<open>StartKey\<close> and
  \<open>EndKey\<close> are \<^verbatim>\<open>interface{}\<close> (nil when not given). \<open>GroupLevel\<close>, \<open>Limit\<close> and
  \<open>Skip\<close> hold the Go \<^verbatim>\<open>int\<close> that the code obtains by \<^verbatim>\<open>int(p.GroupLevel)\<close>,
  \<^verbatim>\<open>int(p.Limit)\<close> and \<^verbatim>\<open>int(p.Skip)\<close>.
\<close>

record 'n ViewParams =
  Key :: "'n iface"
  StartKey :: "'n iface"
  EndKey :: "'n iface"
  Descending :: bool
  InclusiveEnd :: bool
  Group :: bool
  GroupLevel :: int
  Reduce :: bool
  IncludeDocs :: bool
  Limit :: int
  Skip :: int

record 'n ViewDocValue =
  Meta :: "(string \<times> 'n iface) list"
  Json :: "'n iface"

record 'n ViewRow =
  Id' :: string
  Key :: "'n iface"
  Value :: "'n iface"
  Doc :: "'n ViewDocValue option"

text \<open>\<^verbatim>\<open>ViewRows\<close> is a slice of row pointers; a pointer may be nil (\<open>None\<close>).\<close>

type_synonym 'n ViewRows = "'n ViewRow option slice"

record 'n ViewResult =
  TotalRows :: int
  Rows :: "'n ViewRows"

text \<open>
  \<^verbatim>\<open>walrus.CollateJSON\<close> belongs to an external library: it is a parameter
  \<open>collate\<close> of everything below, a three-way comparison whose sign is what the code
  tests.
\<close>

type_synonym 'n collation = "'n iface \<Rightarrow> 'n iface \<Rightarrow> int"

section \<open>Range selection: processViewResult\<close>

text \<open>\<^verbatim>\<open>result.Rows[i].Key\<close>: an index into the slice, then a pointer dereference.\<close>

definition keyAt :: "'n ViewRows \<Rightarrow> nat \<Rightarrow> error + 'n iface" where
  "keyAt rows i =
     (case index rows i of
        Inl e \<Rightarrow> Inl e
      | Inr None \<Rightarrow> Inl NilPointerDereference
      | Inr (Some r) \<Rightarrow> Inr (Key r))"

text \<open>
  \<^verbatim>\<open>reverseViewRows\<close>: swaps \<^verbatim>\<open>r[i]\<close> and \<^verbatim>\<open>r[num-i-1]\<close> for
  \<^verbatim>\<open>i < num/2\<close>, in place. Both indices are below \<^verbatim>\<open>num\<close> inside the loop.
\<close>

function reverseViewRows_loop :: "'a list \<Rightarrow> nat \<Rightarrow> 'a list" where
  "reverseViewRows_loop r i =
     (let num = length r; mid = num div 2 in
      if i < mid then
        reverseViewRows_loop (r[i := r ! (num - i - 1), num - i - 1 := r ! i]) (i + 1)
      else r)"
  by pat_completeness auto
termination
  by (relation "measure (\<lambda>(r, i). length r div 2 - i)") auto

definition reverseViewRows :: "'a slice \<Rightarrow> 'a slice" where
  "reverseViewRows r = r\<lparr>elems := reverseViewRows_loop (elems r) 0\<rparr>"

text \<open>The predicate of the first search: \<^verbatim>\<open>CollateJSON(row.Key, p.StartKey) >= 0\<close>.\<close>

definition startKeyReached :: "'n collation \<Rightarrow> 'n ViewParams \<Rightarrow> 'n iface \<Rightarrow> bool" where
  "startKeyReached collate p k = (0 \<le> collate k (StartKey p))"

text \<open>
  The predicate of the second search: \<^verbatim>\<open>> 0\<close> when \<^verbatim>\<open>p.InclusiveEnd\<close>, else
  \<^verbatim>\<open>>= 0\<close>.
\<close>

definition endKeyPassed :: "'n collation \<Rightarrow> 'n ViewParams \<Rightarrow> 'n iface \<Rightarrow> bool" where
  "endKeyPassed collate p k =
     (if InclusiveEnd p then 0 < collate k (EndKey p) else 0 \<le> collate k (EndKey p))"

definition startKeyTrim ::
  "'n collation \<Rightarrow> 'n ViewParams \<Rightarrow> 'n ViewRows \<Rightarrow> error + 'n ViewRows" where
  "startKeyTrim collate p rows =
     (if StartKey p \<noteq> None then
        (case Search (len rows)
                (\<lambda>i. case keyAt rows i of
                       Inl e \<Rightarrow> Inl e
                     | Inr k \<Rightarrow> Inr (startKeyReached collate p k)) of
           Inl e \<Rightarrow> Inl e
         | Inr i \<Rightarrow> if Descending p then slice_upto rows (i + 1) else slice_from rows i)
      else Inr rows)"

definition endKeyTrim ::
  "'n collation \<Rightarrow> 'n ViewParams \<Rightarrow> 'n ViewRows \<Rightarrow> error + 'n ViewRows" where
  "endKeyTrim collate p rows =
     (if EndKey p \<noteq> None then
        (case Search (len rows)
                (\<lambda>i. case keyAt rows i of
                       Inl e \<Rightarrow> Inl e
                     | Inr k \<Rightarrow> Inr (endKeyPassed collate p k)) of
           Inl e \<Rightarrow> Inl e
         | Inr i \<Rightarrow> if Descending p then slice_from rows i else slice_upto rows i)
      else Inr rows)"

text \<open>
  \<^verbatim>\<open>if p.Key != nil { p.StartKey = p.Key; p.EndKey = p.Key }\<close>. The assignment is
  made through the pointer \<^verbatim>\<open>p\<close>; the caller afterwards reads only \<open>Reduce\<close>,
  \<open>IncludeDocs\<close>, \<open>Group\<close>, \<open>GroupLevel\<close>, \<open>Skip\<close> and \<open>Limit\<close>.
\<close>

definition coerceKey :: "'n ViewParams \<Rightarrow> 'n ViewParams" where
  "coerceKey p =
     (if ViewParams.Key p \<noteq> None
      then p\<lparr>StartKey := ViewParams.Key p, EndKey := ViewParams.Key p\<rparr>
      else p)"

text \<open>
  \<^verbatim>\<open>processViewResult(bucket, result, p)\<close>; the bucket is not used. The Go function
  returns a nil error always; \<open>Inl\<close> is a panic.
\<close>

definition processViewResult ::
  "'n collation \<Rightarrow> 'n ViewResult \<Rightarrow> 'n ViewParams \<Rightarrow> error + 'n ViewResult" where
  "processViewResult collate result p0 =
     (let p = coerceKey p0 in
      case startKeyTrim collate p (Rows result) of
        Inl e \<Rightarrow> Inl e
      | Inr rows1 \<Rightarrow>
          (case endKeyTrim collate p rows1 of
             Inl e \<Rightarrow> Inl e
           | Inr rows2 \<Rightarrow>
               Inr (result\<lparr>Rows := (if Descending p then reverseViewRows rows2 else rows2)\<rparr>)))"

section \<open>Pagination\<close>

text \<open>
  The end of \<^verbatim>\<open>couchDbGetView\<close> (after range selection and the reduce or the
  include-docs stage): skip, limit, then \<^verbatim>\<open>vr.TotalRows = len(vr.Rows)\<close>. A skip or a
  limit that is not positive does nothing; one beyond the length is clamped to it.
\<close>

definition paginate :: "'n ViewParams \<Rightarrow> 'n ViewResult \<Rightarrow> error + 'n ViewResult" where
  "paginate p vr =
     (let skip = Skip p in
      case (if 0 < skip then
              slice_from (Rows vr)
                (nat (if int (len (Rows vr)) < skip then int (len (Rows vr)) else skip))
            else Inr (Rows vr)) of
        Inl e \<Rightarrow> Inl e
      | Inr rows1 \<Rightarrow>
          (let limit = Limit p in
           case (if 0 < limit then
                   slice_upto rows1
                     (nat (if int (len rows1) < limit then int (len rows1) else limit))
                 else Inr rows1) of
             Inl e \<Rightarrow> Inl e
           | Inr rows2 \<Rightarrow> Inr (vr\<lparr>Rows := rows2, TotalRows := int (len rows2)\<rparr>)))"

section \<open>Reduce: reduceViewResult\<close>

text \<open>
  Modelled from the spec: \<^verbatim>\<open>ArrayPrefix\<close>, which \<^verbatim>\<open>reduceViewResult\<close> calls and whose
  source file is not at hand. The specification gives: with neither \<open>Group\<close> nor
  \<open>GroupLevel\<close> (level 0) the group key is null; \<open>GroupLevel N\<close> takes the array prefix
  of length \<open>N\<close>; a key that is not an array is taken whole; \<open>Group\<close> takes the full key.
\<close>

definition ArrayPrefix :: "'n iface \<Rightarrow> int \<Rightarrow> 'n iface" where
  "ArrayPrefix k level =
     (if 0 < level then
        (case k of
           Some (JArray xs) \<Rightarrow> Some (JArray (take (nat level) xs))
         | _ \<Rightarrow> k)
      else None)"

text \<open>
  The script engine (an external library) as the reduce stage uses it: compiling the
  function, converting Go arrays into script values, calling, and exporting the result.
  Each operation may return an error. A call is taken as a function of its arguments.
\<close>

record ('fn, 'ov, 'n) otto =
  OttoNewFunction :: "string \<Rightarrow> error + 'fn"
  OttoFromGoArray :: "'n iface list \<Rightarrow> error + 'ov"
  Call :: "'fn \<Rightarrow> 'ov \<Rightarrow> 'ov \<Rightarrow> bool \<Rightarrow> error + 'ov"
  Export :: "'ov \<Rightarrow> error + 'n iface"

text \<open>
  The inner loop: from row \<open>j\<close> on, rows join the group until one whose prefix collates
  after the group key (\<^verbatim>\<open>CollateJSON(groupKey, rowKey) < 0\<close>).
\<close>

function group_scan ::
  "'n collation \<Rightarrow> 'n iface \<Rightarrow> int \<Rightarrow> 'n ViewRow option list \<Rightarrow> nat \<Rightarrow>
   'n iface list \<Rightarrow> 'n iface list \<Rightarrow> error + nat \<times> 'n iface list \<times> 'n iface list" where
  "group_scan collate groupKey groupLevel rows j groupKeys groupValues =
     (if j < length rows then
        (case rows ! j of
           None \<Rightarrow> Inl NilPointerDereference
         | Some row \<Rightarrow>
             if collate groupKey (ArrayPrefix (Key row) groupLevel) < 0
             then Inr (j, groupKeys, groupValues)
             else group_scan collate groupKey groupLevel rows (j + 1)
                    (groupKeys @ [Key row]) (groupValues @ [Value row]))
      else Inr (j, groupKeys, groupValues))"
  by pat_completeness auto
termination
  by (relation "measure (\<lambda>(c, k, l, rows, j, ks, vs). length rows - j)") auto

text \<open>
  From \<^verbatim>\<open>OttoFromGoArray(o, groupKeys)\<close> to \<^verbatim>\<open>ores.Export()\<close>: the errors of the call and
  of the export are wrapped by \<^verbatim>\<open>fmt.Errorf\<close>.
\<close>

definition runReduce ::
  "('fn, 'ov, 'n) otto \<Rightarrow> 'fn \<Rightarrow> 'n iface list \<Rightarrow> 'n iface list \<Rightarrow> error + 'n iface" where
  "runReduce o' fnv groupKeys groupValues =
     (case OttoFromGoArray o' groupKeys of
        Inl err \<Rightarrow> Inl err
      | Inr okeys \<Rightarrow>
          (case OttoFromGoArray o' groupValues of
             Inl err \<Rightarrow> Inl err
           | Inr ovalues \<Rightarrow>
               (case Call o' fnv okeys ovalues False of
                  Inl err \<Rightarrow> Inl (Wrapped ''call reduce err'' err)
                | Inr ores \<Rightarrow>
                    (case Export o' ores of
                       Inl err \<Rightarrow> Inl (Wrapped ''converting reduce result err'' err)
                     | Inr gres \<Rightarrow> Inr gres))))"

text \<open>
  The outer loop \<^verbatim>\<open>for i < len(result.Rows)\<close>. It continues at the index where the
  inner loop stopped, which need not be beyond \<open>i\<close> for an arbitrary collation: the loop
  may then run forever, and the result is \<open>None\<close>.
\<close>

partial_function (option) reduce_loop ::
  "('fn, 'ov, 'n) otto \<Rightarrow> 'fn \<Rightarrow> 'n collation \<Rightarrow> int \<Rightarrow> 'n ViewRow option list \<Rightarrow> nat \<Rightarrow>
   'n ViewRow list \<Rightarrow> (error + 'n ViewRow list) option" where
  "reduce_loop o' fnv collate groupLevel rows i results =
     (if i < length rows then
        (case rows ! i of
           None \<Rightarrow> Some (Inl NilPointerDereference)
         | Some startRow \<Rightarrow>
             (let groupKey = ArrayPrefix (Key startRow) groupLevel in
              case group_scan collate groupKey groupLevel rows i [] [] of
                Inl e \<Rightarrow> Some (Inl e)
              | Inr (j, groupKeys, groupValues) \<Rightarrow>
                  (case runReduce o' fnv groupKeys groupValues of
                     Inl err \<Rightarrow> Some (Inl err)
                   | Inr gres \<Rightarrow>
                       reduce_loop o' fnv collate groupLevel rows j
                         (results @ [\<lparr>Id' = [], Key = groupKey, Value = gres, Doc = None\<rparr>]))))
      else Some (Inr results))"

declare reduce_loop.simps [code]

text \<open>
  \<^verbatim>\<open>reduceViewResult(bucket, result, p, reduceFunction)\<close>. The new rows are appended
  to a slice made with capacity 200; the capacity that \<^verbatim>\<open>append\<close> chooses beyond 200
  rows is not modelled (it is taken as the length).
\<close>

definition reduceViewResult ::
  "('fn, 'ov, 'n) otto \<Rightarrow> 'n collation \<Rightarrow> 'n ViewResult \<Rightarrow> 'n ViewParams \<Rightarrow> string \<Rightarrow>
   (error + 'n ViewResult) option" where
  "reduceViewResult o' collate result p reduceFunction =
     (let groupLevel = (if 0 < GroupLevel p then GroupLevel p
                        else if Group p then 0x7fffffff else 0) in
      case OttoNewFunction o' reduceFunction of
        Inl err \<Rightarrow> Some (Inl err)
      | Inr fnv \<Rightarrow>
          (case reduce_loop o' fnv collate groupLevel (elems (Rows result)) 0 [] of
             None \<Rightarrow> None
           | Some (Inl err) \<Rightarrow> Some (Inl err)
           | Some (Inr results) \<Rightarrow>
               Some (Inr (result\<lparr>Rows := \<lparr>elems = map Some results,
                                           spare = replicate (200 - length results) None\<rparr>\<rparr>))))"

section \<open>Including documents: docifyViewResult\<close>

text \<open>
  What \<^verbatim>\<open>GetItem(bucket, []byte(row.Id), VBActive)\<close> and the \<^verbatim>\<open>json.Unmarshal\<close> of the
  body come to for one id: no response at all (a nil pointer, which the code dereferences
  at \<^verbatim>\<open>res.Status\<close>), a status other than \<^verbatim>\<open>SUCCESS\<close>, a body that parses as JSON,
  or a body that does not.
\<close>

datatype 'n get_item =
    NilResponse
  | NotSuccess
  | SuccessJson "'n iface"
  | SuccessNotJson

definition docifyRow :: "(string \<Rightarrow> 'n get_item) \<Rightarrow> 'n ViewRow \<Rightarrow> error + 'n ViewRow" where
  "docifyRow getItem r =
     (if Id' r \<noteq> [] then
        (case getItem (Id' r) of
           NilResponse \<Rightarrow> Inl NilPointerDereference
         | NotSuccess \<Rightarrow> Inr r
         | SuccessJson parsedDoc \<Rightarrow>
             Inr (r\<lparr>Doc := Some \<lparr>Meta = [(''id'', Some (JString (Id' r))),
                                           (''rev'', Some (JString ''0''))],
                                   Json = parsedDoc\<rparr>\<rparr>)
         | SuccessNotJson \<Rightarrow> Inr r)
      else Inr r)"

text \<open>\<^verbatim>\<open>for _, row := range result.Rows\<close>, in order; a nil row pointer panics at \<^verbatim>\<open>row.Id\<close>.\<close>

fun docifyRows ::
  "(string \<Rightarrow> 'n get_item) \<Rightarrow> 'n ViewRow option list \<Rightarrow> error + 'n ViewRow option list" where
  "docifyRows getItem [] = Inr []"
| "docifyRows getItem (None # rest) = Inl NilPointerDereference"
| "docifyRows getItem (Some r # rest) =
     (case docifyRow getItem r of
        Inl e \<Rightarrow> Inl e
      | Inr r' \<Rightarrow>
          (case docifyRows getItem rest of
             Inl e \<Rightarrow> Inl e
           | Inr rest' \<Rightarrow> Inr (Some r' # rest')))"

definition docifyViewResult ::
  "(string \<Rightarrow> 'n get_item) \<Rightarrow> 'n ViewResult \<Rightarrow> error + 'n ViewResult" where
  "docifyViewResult getItem result =
     (case docifyRows getItem (elems (Rows result)) of
        Inl e \<Rightarrow> Inl e
      | Inr rows \<Rightarrow> Inr (result\<lparr>Rows := (Rows result)\<lparr>elems := rows\<rparr>\<rparr>))"

text \<open>
  The choice between the two in \<^verbatim>\<open>couchDbGetView\<close>:
  \<^verbatim>\<open>if view.Reduce == "" || p.Reduce == false { ... docify ... } else { ... reduce ... }\<close>.
\<close>

definition reduceOrDocify ::
  "('fn, 'ov, 'n) otto \<Rightarrow> 'n collation \<Rightarrow> (string \<Rightarrow> 'n get_item) \<Rightarrow> string \<Rightarrow>
   'n ViewResult \<Rightarrow> 'n ViewParams \<Rightarrow> (error + 'n ViewResult) option" where
  "reduceOrDocify o' collate getItem viewReduce vr p =
     (if viewReduce = [] \<or> Reduce p = False then
        (if IncludeDocs p then Some (docifyViewResult getItem vr) else Some (Inr vr))
      else reduceViewResult o' collate vr p viewReduce)"

section \<open>The map phase of couchDbGetView\<close>

definition maxViewErrors :: int where
  "maxViewErrors = 100"

text \<open>
  Modelled from the spec: \<^verbatim>\<open>VBucket.Visit\<close>, whose source file is not at hand. The
  specification gives: the visitor iterates the items in key order and invokes a
  callback \<^verbatim>\<open>(key, rawValue) -> bool\<close>, where false aborts the walk. The error that
  \<^verbatim>\<open>Visit\<close> returns (the code tests it) is a field of the modelled partition.
\<close>

record VBucket =
  items :: "(string \<times> string) list"
  visitErr :: "error option"

fun Visit_loop ::
  "(string \<times> string) list \<Rightarrow> ('s \<Rightarrow> string \<Rightarrow> string \<Rightarrow> 's \<times> bool) \<Rightarrow> 's \<Rightarrow> 's" where
  "Visit_loop [] visitor st = st"
| "Visit_loop ((key, data) # rest) visitor st =
     (case visitor st key data of
        (st', continue) \<Rightarrow> if continue then Visit_loop rest visitor st' else st')"

definition Visit ::
  "VBucket \<Rightarrow> ('s \<Rightarrow> string \<Rightarrow> string \<Rightarrow> 's \<times> bool) \<Rightarrow> 's \<Rightarrow> 's \<times> error option" where
  "Visit vb visitor st = (Visit_loop (items vb) visitor st, visitErr vb)"

text \<open>
  What the external calls inside the visit callback come to for one document
  (\<^verbatim>\<open>json.Unmarshal\<close> or base64, \<^verbatim>\<open>OttoFromGo\<close> of the document and of its meta, and
  the call of the map function, during which \<^verbatim>\<open>emit\<close> appends rows to \<open>emits\<close>):
  a conversion failed; the map function threw, after emitting some rows; or it
  returned, after emitting some rows. The outcome is taken as a function of the document.
\<close>

datatype 'n map_outcome =
    ConvertFailed error
  | Threw "'n ViewRow list" error
  | Returned "'n ViewRow list"

type_synonym 'n map_function = "string \<Rightarrow> string \<Rightarrow> 'n map_outcome"

record 'n visit_state =
  emits :: "'n ViewRow list"
  vrRows :: "'n ViewRow list"
  numErr :: int
  errVisit :: "error option"

text \<open>
  The callback. \<open>emits\<close> and \<open>vrRows\<close> (\<^verbatim>\<open>vr.Rows\<close>) live across partitions;
  \<open>numErr\<close> and \<open>errVisit\<close> are declared inside the loop over the partitions.
\<close>

definition visitDoc ::
  "'n map_function \<Rightarrow> 'n visit_state \<Rightarrow> string \<Rightarrow> string \<Rightarrow> 'n visit_state \<times> bool" where
  "visitDoc fnv st key data =
     (if maxViewErrors < numErr st then (st, False)
      else
        (case fnv key data of
           ConvertFailed err \<Rightarrow> (st\<lparr>errVisit := Some err\<rparr>, False)
         | Threw emitted err \<Rightarrow>
             (st\<lparr>emits := emits st @ emitted, numErr := numErr st + 1, errVisit := Some err\<rparr>,
              True)
         | Returned emitted \<Rightarrow>
             (st\<lparr>vrRows := vrRows st @ map (\<lambda>emit. emit\<lparr>Id' := key\<rparr>) (emits st @ emitted),
                 emits := []\<rparr>,
              True)))"

text \<open>The two replies with status 400 that end the request during the map phase.\<close>

datatype view_abort = ViewVisitError error | ViewVisitFunctionError error

record Bucket =
  NumPartitions :: int
  GetVBucket :: "16 word \<Rightarrow> VBucket option"

text \<open>
  The loop body for one partition: a nil partition is skipped; otherwise the counters
  start afresh, the partition is visited, and the request is aborted when the visit
  failed or when \<^verbatim>\<open>numErr > maxViewErrors && errVisit != nil\<close> (a case on
  \<open>errVisit\<close> here, to have the error at hand).
\<close>

fun mapVBuckets ::
  "'n map_function \<Rightarrow> VBucket option list \<Rightarrow> 'n ViewRow list \<Rightarrow> 'n ViewRow list \<Rightarrow>
   view_abort + 'n ViewRow list \<times> 'n ViewRow list" where
  "mapVBuckets fnv [] em rs = Inr (em, rs)"
| "mapVBuckets fnv (None # vbs) em rs = mapVBuckets fnv vbs em rs"
| "mapVBuckets fnv (Some vb # vbs) em rs =
     (case Visit vb (visitDoc fnv) \<lparr>emits = em, vrRows = rs, numErr = 0, errVisit = None\<rparr> of
        (st, Some err) \<Rightarrow> Inl (ViewVisitError err)
      | (st, None) \<Rightarrow>
          (case errVisit st of
             Some err \<Rightarrow>
               if maxViewErrors < numErr st then Inl (ViewVisitFunctionError err)
               else mapVBuckets fnv vbs (emits st) (vrRows st)
           | None \<Rightarrow> mapVBuckets fnv vbs (emits st) (vrRows st)))"

text \<open>\<^verbatim>\<open>for vbid := 0; vbid < np; vbid++ { vb, _ := bucket.GetVBucket(uint16(vbid)) ... }\<close>\<close>

definition vbuckets :: "Bucket \<Rightarrow> VBucket option list" where
  "vbuckets bucket =
     map (\<lambda>vbid. GetVBucket bucket (word_of_nat vbid)) [0..<nat (NumPartitions bucket)]"

definition mapPhase :: "'n map_function \<Rightarrow> Bucket \<Rightarrow> view_abort + 'n ViewRow list" where
  "mapPhase fnv bucket =
     (case mapVBuckets fnv (vbuckets bucket) [] [] of
        Inl a \<Rightarrow> Inl a
      | Inr (em, rs) \<Rightarrow> Inr rs)"

section \<open>The _revs_diff handler\<close>

text \<open>
  \<^verbatim>\<open>couchDbRevsDiff\<close>. \<open>bucket\<close> is what \<^verbatim>\<open>checkDb\<close> returned (nil: the handler
  returns at once, \<^verbatim>\<open>checkDb\<close> has replied). \<open>decoded\<close> is what the JSON decoder made
  of the body: an error, or the entries of the map \<^verbatim>\<open>revsDiffRequest\<close> in the order
  in which \<^verbatim>\<open>range\<close> yields them (their keys are distinct).
\<close>

fun revsDiffResponse_loop ::
  "(string \<times> 'n iface) list \<Rightarrow> (string \<rightharpoonup> 'n iface) \<Rightarrow> (string \<rightharpoonup> 'n iface)" where
  "revsDiffResponse_loop [] revsDiffResponse = revsDiffResponse"
| "revsDiffResponse_loop ((key, val) # rest) revsDiffResponse =
     revsDiffResponse_loop rest (revsDiffResponse(key \<mapsto> Some (JObject [(''missing'', val)])))"

datatype 'n revs_diff_reply =
    RevsDiffError nat error
  | RevsDiffJson "string \<rightharpoonup> 'n iface"

definition couchDbRevsDiff ::
  "'b option \<Rightarrow> error + (string \<times> 'n iface) list \<Rightarrow> 'n revs_diff_reply option" where
  "couchDbRevsDiff bucket decoded =
     (case bucket of
        None \<Rightarrow> None
      | Some b \<Rightarrow>
          (case decoded of
             Inl err \<Rightarrow> Some (RevsDiffError 500 err)
           | Inr revsDiffRequest \<Rightarrow>
               Some (RevsDiffJson (revsDiffResponse_loop revsDiffRequest Map.empty))))"

section \<open>Expiration\<close>

text \<open>
  Modelled from the spec: \<^verbatim>\<open>computeExp\<close>, which the test
  \<^verbatim>\<open>TestExpirationComputin\<close> calls and whose source file is not at hand. The
  specification gives: if \<^verbatim>\<open>exp <= 30*24*3600\<close> and \<^verbatim>\<open>exp > 0\<close>, store
  \<^verbatim>\<open>now()+exp\<close>; else store \<^verbatim>\<open>exp\<close> verbatim. Both are \<^verbatim>\<open>uint32\<close> in the test.
\<close>

definition computeExp :: "32 word \<Rightarrow> 32 word \<Rightarrow> 32 word" where
  "computeExp exp now =
     (if 0 < exp \<and> exp \<le> 30 * 24 * 3600 then now + exp else exp)"

section \<open>The periodic multiplexer\<close>

text \<open>
  Modelled from the spec: \<^verbatim>\<open>newPeriodically\<close>, which the tests call and whose source
  file is not at hand. The specification gives: the constructor takes a period and a
  worker count and returns a sentinel failure (nil) if either is zero.
\<close>

record periodically =
  period :: int
  workers :: int

definition newPeriodically :: "int \<Rightarrow> int \<Rightarrow> periodically option" where
  "newPeriodically p w =
     (if p = 0 \<or> w = 0 then None else Some \<lparr>period = p, workers = w\<rparr>)"

section \<open>Vocabulary of the statements\<close>

text \<open>
  What the properties need to say about the collation parameter: it is a three-way
  comparison for a total preorder (the sign flips when the arguments are swapped, and
  "not after" is transitive), and a row list is collated when it is sorted by it.
\<close>

definition collation :: "'n collation \<Rightarrow> bool" where
  "collation c \<longleftrightarrow>
     (\<forall>a b. (c a b < 0) = (0 < c b a)) \<and>
     (\<forall>a b d. c a b \<le> 0 \<longrightarrow> c b d \<le> 0 \<longrightarrow> c a d \<le> 0)"

definition collated :: "'n collation \<Rightarrow> 'n ViewRow list \<Rightarrow> bool" where
  "collated c rs = sorted_wrt (\<lambda>a b. c (Key a) (Key b) \<le> 0) rs"

text \<open>
  A collation for the worked examples: values are ordered by kind
  (null, false, true, numbers, strings, arrays, objects), numbers among themselves by
  value; strings, arrays and objects are not compared further.
\<close>

fun typeRank :: "'n iface \<Rightarrow> int" where
  "typeRank None = 0"
| "typeRank (Some (JBool b)) = (if b then 2 else 1)"
| "typeRank (Some (JNumber x)) = 3"
| "typeRank (Some (JString s)) = 4"
| "typeRank (Some (JArray xs)) = 5"
| "typeRank (Some (JObject kvs)) = 6"

fun numberOf :: "int iface \<Rightarrow> int" where
  "numberOf (Some (JNumber x)) = x"
| "numberOf v = 0"

definition collatesBefore :: "int iface \<Rightarrow> int iface \<Rightarrow> bool" where
  "collatesBefore a b \<longleftrightarrow>
     typeRank a < typeRank b \<or> (typeRank a = typeRank b \<and> numberOf a < numberOf b)"

definition collateNumbers :: "int collation" where
  "collateNumbers a b =
     (if collatesBefore a b then - 1 else if collatesBefore b a then 1 else 0)"

text \<open>The rows of the repository's view tests (documents a, d, b with keys 1, 2, 3).\<close>

definition rowOf :: "string \<Rightarrow> int \<Rightarrow> int ViewRow" where
  "rowOf i k = \<lparr>Id' = i, Key = Some (JNumber k), Value = None, Doc = None\<rparr>"

definition rows123 :: "int ViewRow list" where
  "rows123 = [rowOf ''a'' 1, rowOf ''d'' 2, rowOf ''b'' 3]"

definition noParams :: "int ViewParams" where
  "noParams = \<lparr>ViewParams.Key = None, StartKey = None, EndKey = None, Descending = False,
     InclusiveEnd = True, Group = False, GroupLevel = 0, Reduce = True, IncludeDocs = False,
     Limit = 0, Skip = 0\<rparr>"

text \<open>
  The end-key search as the specification words it, for comparison with
  \<open>endKeyPassed\<close>: \<^verbatim>\<open>>\<close> when \<open>InclusiveEnd\<close> is false, otherwise \<^verbatim>\<open>>=\<close>.
\<close>

definition endKeyPassed_claimed :: "'n collation \<Rightarrow> 'n ViewParams \<Rightarrow> 'n iface \<Rightarrow> bool" where
  "endKeyPassed_claimed collate p k =
     (if InclusiveEnd p then 0 \<le> collate k (EndKey p) else 0 < collate k (EndKey p))"

definition endKeyTrim_claimed ::
  "'n collation \<Rightarrow> 'n ViewParams \<Rightarrow> 'n ViewRows \<Rightarrow> error + 'n ViewRows" where
  "endKeyTrim_claimed collate p rows =
     (if EndKey p \<noteq> None then
        (case Search (len rows)
                (\<lambda>i. case keyAt rows i of
                       Inl e \<Rightarrow> Inl e
                     | Inr k \<Rightarrow> Inr (endKeyPassed_claimed collate p k)) of
           Inl e \<Rightarrow> Inl e
         | Inr i \<Rightarrow> if Descending p then slice_from rows i else slice_upto rows i)
      else Inr rows)"

text \<open>Parameters of the worked examples.\<close>

definition startkey3_endkey1 :: "int ViewParams" where
  "startkey3_endkey1 = noParams\<lparr>StartKey := Some (JNumber 3), EndKey := Some (JNumber 1)\<rparr>"

definition startkey4_descending :: "int ViewParams" where
  "startkey4_descending = noParams\<lparr>StartKey := Some (JNumber 4), Descending := True\<rparr>"





text \<open>
  Worked examples: a map function that throws on every document, a bucket made of a
  list of partitions, a partition of \<open>n\<close> documents; the sum reducer and the rows of
  the repository's reduce test; the request of its \<^verbatim>\<open>_revs_diff\<close> test.
\<close>

definition alwaysThrows :: "int map_function" where
  "alwaysThrows key data = Threw [] (Err ''TypeError'')"

definition throwsUnlessBad :: "int map_function" where
  "throwsUnlessBad key data =
     (if key = ''bad'' then ConvertFailed (Err ''cannot convert'')
      else Threw [] (Err ''TypeError''))"

definition bucketOf :: "VBucket list \<Rightarrow> Bucket" where
  "bucketOf vbs =
     \<lparr>NumPartitions = int (length vbs),
      GetVBucket = (\<lambda>vbid. if unat vbid < length vbs then Some (vbs ! unat vbid) else None)\<rparr>"


definition sumReducer :: "(unit, int iface, int) otto" where
  "sumReducer =
     \<lparr>OttoNewFunction = (\<lambda>src. Inr ()),
      OttoFromGoArray = (\<lambda>xs. Inr (Some (JArray xs))),
      Call = (\<lambda>fnv okeys ovalues rereduce.
                case ovalues of
                  Some (JArray vs) \<Rightarrow> Inr (Some (JNumber (sum_list (map numberOf vs))))
                | _ \<Rightarrow> Inl (Err ''values is not an array'')),
      Export = (\<lambda>v. Inr v)\<rparr>"

definition rowsAmount1 :: "int ViewRow list" where
  "rowsAmount1 = map (\<lambda>r. r\<lparr>Value := Some (JNumber 1)\<rparr>)
                   [rowOf ''a'' 1, rowOf ''d'' 2, rowOf ''b'' 3, rowOf ''c'' 4]"

definition sumSource :: string where
  "sumSource = ''function(keys, values, rereduce) { var sum = 0; for (var i = 0; i < values.length; i++) { sum = sum + values[i]; } return sum; }''"

definition docaRequest :: "(string \<times> int iface) list" where
  "docaRequest = [(''doca'', Some (JString ''1-0000dac6571554820000000000000000''))]"

definition endkey2_descending :: "int ViewParams" where
  "endkey2_descending = noParams\<lparr>EndKey := Some (JNumber 2), Descending := True\<rparr>"

definition startkey1_endkey3_key2 :: "int ViewParams" where
  "startkey1_endkey3_key2 =
     noParams\<lparr>ViewParams.Key := Some (JNumber 2), StartKey := Some (JNumber 1),
              EndKey := Some (JNumber 3)\<rparr>"

definition limit0 :: "int ViewParams" where
  "limit0 = noParams\<lparr>Limit := 0\<rparr>"

section \<open>Properties\<close>

declare Search_loop.simps [simp del]
declare reverseViewRows_loop.simps [simp del]

subsection \<open>reverseViewRows reverses\<close>

lemma reverseViewRows_loop_length: "length (reverseViewRows_loop r i) = length r"
proof (induction r i rule: reverseViewRows_loop.induct)
  case (1 r i)
  show ?case
  proof (cases "i < length r div 2")
    case True
    then show ?thesis using 1 by (subst reverseViewRows_loop.simps) (simp add: Let_def)
  next
    case False
    then show ?thesis by (subst reverseViewRows_loop.simps) (simp add: Let_def)
  qed
qed

lemma reverseViewRows_loop_nth:
  "k < length r \<Longrightarrow>
   reverseViewRows_loop r i ! k =
     (if i \<le> k \<and> k < length r - i then r ! (length r - 1 - k) else r ! k)"
proof (induction r i arbitrary: k rule: reverseViewRows_loop.induct)
  case (1 r i)
  show ?case
  proof (cases "i < length r div 2")
    case False
    have "r ! (length r - 1 - k) = r ! k" if "i \<le> k" "k < length r - i"
    proof -
      have "k = length r - 1 - k" using False that by linarith
      then show ?thesis by simp
    qed
    then show ?thesis using False by (subst reverseViewRows_loop.simps) (simp add: Let_def)
  next
    case True
    let ?r = "r[i := r ! (length r - i - 1), length r - i - 1 := r ! i]"
    have step: "reverseViewRows_loop r i = reverseViewRows_loop ?r (i + 1)"
      using True by (subst reverseViewRows_loop.simps) (simp add: Let_def)
    have k': "k < length ?r" using 1(2) by simp
    have ih: "reverseViewRows_loop ?r (i + 1) ! k =
                (if i + 1 \<le> k \<and> k < length ?r - (i + 1) then ?r ! (length ?r - 1 - k) else ?r ! k)"
      using 1(1)[OF refl refl True k'] .
    have ne: "i \<noteq> length r - i - 1" using True by linarith
    show ?thesis
      unfolding step ih using True 1(2) ne
      by (auto simp: nth_list_update)
  qed
qed

lemma reverseViewRows_loop_rev: "reverseViewRows_loop r 0 = rev r"
proof (rule nth_equalityI)
  show "length (reverseViewRows_loop r 0) = length (rev r)"
    by (simp add: reverseViewRows_loop_length)
next
  fix k assume "k < length (reverseViewRows_loop r 0)"
  then have k: "k < length r" by (simp add: reverseViewRows_loop_length)
  then show "reverseViewRows_loop r 0 ! k = rev r ! k"
    by (simp add: reverseViewRows_loop_nth rev_nth)
qed

lemma reverseViewRows_rev: "reverseViewRows s = s\<lparr>elems := rev (elems s)\<rparr>"
  by (simp add: reverseViewRows_def reverseViewRows_loop_rev)

subsection \<open>Binary search on a collated list\<close>

lemma Search_loop_least:
  "(\<forall>k<n. f k = Inr (P k)) \<Longrightarrow> (\<forall>a b. a \<le> b \<and> b < n \<and> P a \<longrightarrow> P b) \<Longrightarrow>
   lo \<le> hi \<Longrightarrow> hi \<le> n \<Longrightarrow> (\<forall>k<lo. \<not> P k) \<Longrightarrow> (\<forall>k. hi \<le> k \<and> k < n \<longrightarrow> P k) \<Longrightarrow>
     \<exists>m. Search_loop f lo hi = Inr m \<and> lo \<le> m \<and> m \<le> hi \<and> (\<forall>k<m. \<not> P k) \<and> (\<forall>k. m \<le> k \<and> k < n \<longrightarrow> P k)"
proof (induction f lo hi rule: Search_loop.induct)
  case (1 f i j)
  show ?case
  proof (cases "i < j")
    case False
    with 1(3-) show ?thesis by (subst Search_loop.simps) auto
  next
    case True
    define h where "h = (i + j) div 2"
    have hb: "i \<le> h" "h < j" using True by (auto simp: h_def)
    have fh: "f h = Inr (P h)" using 1(3,6) hb by auto
    show ?thesis
    proof (cases "P h")
      case True
      have up: "\<forall>k. h \<le> k \<and> k < n \<longrightarrow> P k" using True 1(4) by blast
      have "\<exists>m. Search_loop f i h = Inr m \<and> i \<le> m \<and> m \<le> h \<and> (\<forall>k<m. \<not> P k) \<and> (\<forall>k. m \<le> k \<and> k < n \<longrightarrow> P k)"
        using 1(2)[OF \<open>i < j\<close> h_def fh _ 1(3,4) hb(1) _ 1(7) up] True hb 1(6) by auto
      then obtain m where m: "Search_loop f i h = Inr m" "i \<le> m" "m \<le> h" "\<forall>k<m. \<not> P k" "\<forall>k. m \<le> k \<and> k < n \<longrightarrow> P k"
        by blast
      have "Search_loop f i j = Search_loop f i h"
        using \<open>i < j\<close> fh True by (subst Search_loop.simps) (simp add: h_def Let_def)
      with m hb show ?thesis by auto
    next
      case False
      have lo: "\<forall>k<h + 1. \<not> P k"
      proof (intro allI impI)
        fix k assume "k < h + 1"
        then have "k \<le> h" by simp
        moreover have "h < n" using hb 1(6) by simp
        ultimately show "\<not> P k" using False 1(4) by blast
      qed
      have "\<exists>m. Search_loop f (h + 1) j = Inr m \<and> h + 1 \<le> m \<and> m \<le> j \<and> (\<forall>k<m. \<not> P k) \<and> (\<forall>k. m \<le> k \<and> k < n \<longrightarrow> P k)"
        using 1(1)[OF \<open>i < j\<close> h_def fh False 1(3,4) _ 1(6) lo 1(8)] hb by auto
      then obtain m where m: "Search_loop f (h + 1) j = Inr m" "h + 1 \<le> m" "m \<le> j" "\<forall>k<m. \<not> P k" "\<forall>k. m \<le> k \<and> k < n \<longrightarrow> P k"
        by blast
      have "Search_loop f i j = Search_loop f (h + 1) j"
        using \<open>i < j\<close> fh False by (subst Search_loop.simps) (simp add: h_def Let_def)
      with m hb show ?thesis by auto
    qed
  qed
qed

lemma Search_least:
  assumes "\<forall>k<n. f k = Inr (P k)" and "\<forall>a b. a \<le> b \<and> b < n \<and> P a \<longrightarrow> P b"
  shows "\<exists>m. Search n f = Inr m \<and> m \<le> n \<and> (\<forall>k<m. \<not> P k) \<and> (\<forall>k. m \<le> k \<and> k < n \<longrightarrow> P k)"
proof -
  have top: "\<forall>k. n \<le> k \<and> k < n \<longrightarrow> P k" by (simp add: not_less [symmetric])
  have "\<exists>m. Search_loop f 0 n = Inr m \<and> 0 \<le> m \<and> m \<le> n \<and>
          (\<forall>k<m. \<not> P k) \<and> (\<forall>k. m \<le> k \<and> k < n \<longrightarrow> P k)"
    by (rule Search_loop_least[OF assms _ _ _ top]) simp_all
  then show ?thesis by (simp add: Search_def)
qed

lemma keyAt_Some:
  "i < length rs \<Longrightarrow> keyAt \<lparr>elems = map Some rs, spare = sp\<rparr> i = Inr (Key (rs ! i))"
  by (simp add: keyAt_def index_def len_def)

lemma Search_rows:
  assumes mono: "\<forall>a b. a \<le> b \<and> b < length rs \<and> Q (Key (rs ! a)) \<longrightarrow> Q (Key (rs ! b))"
  shows "\<exists>m. Search (length rs)
            (\<lambda>i. case keyAt \<lparr>elems = map Some rs, spare = sp\<rparr> i of
                   Inl e \<Rightarrow> Inl e | Inr k \<Rightarrow> Inr (Q k)) = Inr m \<and>
         m \<le> length rs \<and>
         take m rs = takeWhile (\<lambda>r. \<not> Q (Key r)) rs \<and>
         drop m rs = dropWhile (\<lambda>r. \<not> Q (Key r)) rs"
proof -
  let ?f = "\<lambda>i. case keyAt \<lparr>elems = map Some rs, spare = sp\<rparr> i of
                   Inl e \<Rightarrow> Inl e | Inr k \<Rightarrow> Inr (Q k)"
  have f: "\<forall>k<length rs. ?f k = Inr (Q (Key (rs ! k)))"
    by (simp add: keyAt_Some)
  from Search_least[OF f mono]
  obtain m where m: "Search (length rs) ?f = Inr m" "m \<le> length rs"
    "\<forall>k<m. \<not> Q (Key (rs ! k))" "\<forall>k. m \<le> k \<and> k < length rs \<longrightarrow> Q (Key (rs ! k))"
    by blast
  have tw: "takeWhile (\<lambda>r. \<not> Q (Key r)) rs = take m rs"
    by (rule takeWhile_eq_take_P_nth) (use m in auto)
  have "drop m rs = dropWhile (\<lambda>r. \<not> Q (Key r)) rs"
    by (metis tw append_take_drop_id takeWhile_dropWhile_id same_append_eq)
  with m tw show ?thesis by auto
qed

lemma collateNumbers_less: "(collateNumbers a b < 0) = collatesBefore a b"
  by (simp add: collateNumbers_def)

lemma collateNumbers_greater: "(0 < collateNumbers a b) = collatesBefore b a"
  by (auto simp: collateNumbers_def collatesBefore_def)

lemma collateNumbers_le: "(collateNumbers a b \<le> 0) = (\<not> collatesBefore b a)"
  using collateNumbers_greater [of a b] by (simp add: not_less [symmetric])

lemma collatesBefore_trans:
  "\<not> collatesBefore b a \<Longrightarrow> \<not> collatesBefore d b \<Longrightarrow> \<not> collatesBefore d a"
  unfolding collatesBefore_def by linarith

lemma collation_collateNumbers: "collation collateNumbers"
  unfolding collation_def collateNumbers_le
  using collatesBefore_trans by (simp add: collateNumbers_less collateNumbers_greater)

lemma collation_mono_ge:
  assumes "collation c" "c k k' \<le> 0" "0 \<le> c k e"
  shows "0 \<le> c k' e"
proof (rule ccontr)
  assume "\<not> 0 \<le> c k' e"
  then have "c k' e < 0" by simp
  then have 1: "0 < c e k'" using assms(1) by (simp add: collation_def)
  have "\<not> c k e < 0" using assms(3) by simp
  moreover have "(c k e < 0) = (0 < c e k)" using assms(1) unfolding collation_def by blast
  ultimately have "c e k \<le> 0" by simp
  then have "c e k' \<le> 0" using assms(1,2) unfolding collation_def by blast
  with 1 show False by simp
qed

lemma collation_mono_gt:
  assumes "collation c" "c k k' \<le> 0" "0 < c k e"
  shows "0 < c k' e"
proof (rule ccontr)
  assume "\<not> 0 < c k' e"
  then have "c k' e \<le> 0" by simp
  then have "c k e \<le> 0" using assms(1,2) unfolding collation_def by blast
  with assms(3) show False by simp
qed

lemma collated_nth:
  assumes "collated c rs" "a \<le> b" "b < length rs"
    and refl: "collation c"
  shows "c (Key (rs ! a)) (Key (rs ! b)) \<le> 0"
proof (cases "a = b")
  case True
  have "\<not> c (Key (rs ! a)) (Key (rs ! a)) < 0 \<or> \<not> 0 < c (Key (rs ! a)) (Key (rs ! a))" by auto
  with refl have "\<not> 0 < c (Key (rs ! a)) (Key (rs ! a))" by (auto simp: collation_def)
  with True show ?thesis by simp
next
  case False
  with assms(2) have "a < b" by simp
  with assms(1,3) show ?thesis by (simp add: collated_def sorted_wrt_iff_nth_less)
qed

lemma startKeyReached_mono:
  assumes "collation c" "collated c rs"
  shows "\<forall>a b. a \<le> b \<and> b < length rs \<and> startKeyReached c p (Key (rs ! a))
           \<longrightarrow> startKeyReached c p (Key (rs ! b))"
  unfolding startKeyReached_def
  using collation_mono_ge[OF assms(1) collated_nth[OF assms(2) _ _ assms(1)]] by blast

lemma endKeyPassed_mono:
  assumes "collation c" "collated c rs"
  shows "\<forall>a b. a \<le> b \<and> b < length rs \<and> endKeyPassed c p (Key (rs ! a))
           \<longrightarrow> endKeyPassed c p (Key (rs ! b))"
  unfolding endKeyPassed_def
  using collation_mono_ge[OF assms(1) collated_nth[OF assms(2) _ _ assms(1)]]
        collation_mono_gt[OF assms(1) collated_nth[OF assms(2) _ _ assms(1)]]
  by (cases "InclusiveEnd p") auto

lemma startKeyTrim_collated:
  assumes "collation c" "collated c rs" "StartKey p \<noteq> None" "\<not> Descending p"
  shows "startKeyTrim c p \<lparr>elems = map Some rs, spare = sp\<rparr> =
           Inr \<lparr>elems = map Some (dropWhile (\<lambda>r. \<not> startKeyReached c p (Key r)) rs), spare = sp\<rparr>"
proof -
  from Search_rows[OF startKeyReached_mono[OF assms(1,2)], of p sp]
  obtain m where m: "Search (length rs)
            (\<lambda>i. case keyAt \<lparr>elems = map Some rs, spare = sp\<rparr> i of
                   Inl e \<Rightarrow> Inl e | Inr k \<Rightarrow> Inr (startKeyReached c p k)) = Inr m"
      "m \<le> length rs" "drop m rs = dropWhile (\<lambda>r. \<not> startKeyReached c p (Key r)) rs"
    by blast
  show ?thesis
    using assms(3,4) m by (simp add: startKeyTrim_def len_def slice_from_def drop_map)
qed

lemma endKeyTrim_cut:
  assumes "collation c" "collated c rs" "EndKey p \<noteq> None"
  shows "endKeyTrim c p \<lparr>elems = map Some rs, spare = sp\<rparr> =
           Inr (if Descending p
                then \<lparr>elems = map Some (dropWhile (\<lambda>r. \<not> endKeyPassed c p (Key r)) rs), spare = sp\<rparr>
                else \<lparr>elems = map Some (takeWhile (\<lambda>r. \<not> endKeyPassed c p (Key r)) rs),
                      spare = map Some (dropWhile (\<lambda>r. \<not> endKeyPassed c p (Key r)) rs) @ sp\<rparr>)"
proof -
  from Search_rows[OF endKeyPassed_mono[OF assms(1,2)], of p sp]
  obtain m where m: "Search (length rs)
            (\<lambda>i. case keyAt \<lparr>elems = map Some rs, spare = sp\<rparr> i of
                   Inl e \<Rightarrow> Inl e | Inr k \<Rightarrow> Inr (endKeyPassed c p k)) = Inr m"
      "m \<le> length rs" "drop m rs = dropWhile (\<lambda>r. \<not> endKeyPassed c p (Key r)) rs"
      "take m rs = takeWhile (\<lambda>r. \<not> endKeyPassed c p (Key r)) rs"
    by blast
  show ?thesis
    using assms(3) m
    by (simp add: endKeyTrim_def len_def slice_from_def slice_upto_def drop_map take_map)
qed


lemma takeWhile_not_mem:
  assumes "\<forall>a b. a \<le> b \<and> b < length rs \<and> Q (rs ! a) \<longrightarrow> Q (rs ! b)"
  shows "r \<in> set (takeWhile (\<lambda>x. \<not> Q x) rs) \<longleftrightarrow> r \<in> set rs \<and> \<not> Q r"
proof
  assume "r \<in> set (takeWhile (\<lambda>x. \<not> Q x) rs)"
  then show "r \<in> set rs \<and> \<not> Q r" by (auto dest: set_takeWhileD)
next
  assume r: "r \<in> set rs \<and> \<not> Q r"
  then obtain b where b: "b < length rs" "rs ! b = r" by (auto simp: in_set_conv_nth)
  have "\<forall>a\<le>b. \<not> Q (rs ! a)" using assms b r by blast
  then have "b < length (takeWhile (\<lambda>x. \<not> Q x) rs)"
    using b(1) by (metis (mono_tags, lifting) length_takeWhile_less_P_nth nat_less_le not_less nth_length_takeWhile order_refl)
  then show "r \<in> set (takeWhile (\<lambda>x. \<not> Q x) rs)"
    using b(2) by (metis nth_mem takeWhile_nth)
qed

lemma collated_rows123: "collated collateNumbers rows123"
  by (simp add: collated_def rows123_def rowOf_def collateNumbers_def collatesBefore_def)


subsection \<open>End-key trim\<close>

lemma dropWhile_not_mem:
  assumes "\<forall>a b. a \<le> b \<and> b < length rs \<and> Q (rs ! a) \<longrightarrow> Q (rs ! b)"
  shows "r \<in> set (dropWhile (\<lambda>x. \<not> Q x) rs) \<longleftrightarrow> r \<in> set rs \<and> Q r"
proof
  let ?P = "\<lambda>x. \<not> Q x"
  let ?m = "length (takeWhile ?P rs)"
  assume "r \<in> set (dropWhile ?P rs)"
  then obtain k where k: "k < length (dropWhile ?P rs)" "dropWhile ?P rs ! k = r"
    by (auto simp: in_set_conv_nth)
  have len: "length rs = ?m + length (dropWhile ?P rs)"
    by (metis length_append takeWhile_dropWhile_id)
  have r: "r = rs ! (k + ?m)" using k by (simp add: dropWhile_nth)
  have m: "?m < length rs" using k(1) len by linarith
  have "\<not> ?P (rs ! ?m)" by (rule nth_length_takeWhile[OF m])
  then have "Q (rs ! ?m)" by blast
  moreover have b: "?m \<le> k + ?m" "k + ?m < length rs" using k(1) len by linarith+
  ultimately have "Q (rs ! (k + ?m))" using assms by blast
  moreover have "rs ! (k + ?m) \<in> set rs" by (rule nth_mem[OF b(2)])
  ultimately show "r \<in> set rs \<and> Q r" unfolding r by blast
next
  assume r: "r \<in> set rs \<and> Q r"
  have "set rs = set (takeWhile (\<lambda>x. \<not> Q x) rs) \<union> set (dropWhile (\<lambda>x. \<not> Q x) rs)"
    by (metis set_append takeWhile_dropWhile_id)
  moreover have "r \<notin> set (takeWhile (\<lambda>x. \<not> Q x) rs)"
    using r by (auto dest: set_takeWhileD)
  ultimately show "r \<in> set (dropWhile (\<lambda>x. \<not> Q x) rs)" using r by blast
qed

lemma not_endKeyPassed:
  "(\<lambda>r. \<not> endKeyPassed c p (Key r)) =
   (\<lambda>r. if InclusiveEnd p then c (Key r) (EndKey p) \<le> 0 else c (Key r) (EndKey p) < 0)"
  by (rule ext) (simp add: endKeyPassed_def not_less not_le)

text \<open>
  In ascending mode the search predicate is \<^verbatim>\<open>collate(row.Key, EndKey) > 0\<close> when
  \<open>InclusiveEnd\<close> is true and \<^verbatim>\<open>>= 0\<close> when it is false, and the rows before the index
  are kept: for a collated list these are the rows up to \<open>EndKey\<close>, and a row whose key
  collates equal to \<open>EndKey\<close> is kept exactly when \<open>InclusiveEnd\<close> is true.
\<close>

lemma endKeyTrim_ascending:
  assumes "collation c" and "collated c rs" and "EndKey p \<noteq> None" and "\<not> Descending p"
  shows "\<exists>res. endKeyTrim c p \<lparr>elems = map Some rs, spare = sp\<rparr> = Inr res \<and>
           elems res =
             map Some (takeWhile (\<lambda>r. if InclusiveEnd p then c (Key r) (EndKey p) \<le> 0
                                       else c (Key r) (EndKey p) < 0) rs) \<and>
           (\<forall>r\<in>set rs. c (Key r) (EndKey p) = 0 \<longrightarrow>
              (Some r \<in> set (elems res)) = InclusiveEnd p)"
proof -
  let ?Q = "\<lambda>r. endKeyPassed c p (Key r)"
  have mono: "\<forall>a b. a \<le> b \<and> b < length rs \<and> ?Q (rs ! a) \<longrightarrow> ?Q (rs ! b)"
    using endKeyPassed_mono[OF assms(1,2)] by blast
  have incl: "(r \<in> set (takeWhile (\<lambda>x. \<not> ?Q x) rs)) = InclusiveEnd p"
    if "r \<in> set rs" "c (Key r) (EndKey p) = 0" for r
    using that takeWhile_not_mem[OF mono, of r] by (simp add: endKeyPassed_def)
  have "\<exists>res. endKeyTrim c p \<lparr>elems = map Some rs, spare = sp\<rparr> = Inr res \<and>
           elems res = map Some (takeWhile (\<lambda>r. \<not> endKeyPassed c p (Key r)) rs) \<and>
           (\<forall>r\<in>set rs. c (Key r) (EndKey p) = 0 \<longrightarrow>
              (Some r \<in> set (elems res)) = InclusiveEnd p)"
    using endKeyTrim_cut[OF assms(1-3), of sp] assms(4) incl by (auto simp: image_iff)
  then show ?thesis unfolding not_endKeyPassed .
qed

text \<open>
  In descending mode the code searches with the same two predicates and keeps the rows
  from the index on: for a collated list, a row whose key collates equal to \<open>EndKey\<close> is
  then kept exactly when \<open>InclusiveEnd\<close> is false.
\<close>

lemma endKeyTrim_descending:
  assumes "collation c" and "collated c rs" and "EndKey p \<noteq> None" and "Descending p"
  shows "\<exists>res. endKeyTrim c p \<lparr>elems = map Some rs, spare = sp\<rparr> = Inr res \<and>
           elems res =
             map Some (dropWhile (\<lambda>r. if InclusiveEnd p then c (Key r) (EndKey p) \<le> 0
                                       else c (Key r) (EndKey p) < 0) rs) \<and>
           (\<forall>r\<in>set rs. c (Key r) (EndKey p) = 0 \<longrightarrow>
              (Some r \<in> set (elems res)) = (\<not> InclusiveEnd p))"
proof -
  let ?Q = "\<lambda>r. endKeyPassed c p (Key r)"
  have mono: "\<forall>a b. a \<le> b \<and> b < length rs \<and> ?Q (rs ! a) \<longrightarrow> ?Q (rs ! b)"
    using endKeyPassed_mono[OF assms(1,2)] by blast
  have incl: "(r \<in> set (dropWhile (\<lambda>x. \<not> ?Q x) rs)) = (\<not> InclusiveEnd p)"
    if "r \<in> set rs" "c (Key r) (EndKey p) = 0" for r
    using that dropWhile_not_mem[OF mono, of r] by (simp add: endKeyPassed_def)
  have "\<exists>res. endKeyTrim c p \<lparr>elems = map Some rs, spare = sp\<rparr> = Inr res \<and>
           elems res = map Some (dropWhile (\<lambda>r. \<not> endKeyPassed c p (Key r)) rs) \<and>
           (\<forall>r\<in>set rs. c (Key r) (EndKey p) = 0 \<longrightarrow>
              (Some r \<in> set (elems res)) = (\<not> InclusiveEnd p))"
    using endKeyTrim_cut[OF assms(1-3), of sp] assms(4) incl by (auto simp: image_iff)
  then show ?thesis unfolding not_endKeyPassed .
qed

text \<open>
  C1 does not hold of the code in descending mode: the row whose key equals \<open>EndKey\<close>
  is to be included exactly when \<open>InclusiveEnd\<close> is true. With \<open>Descending\<close>, the keys
  1, 2, 3 and \<open>EndKey = 2\<close>, the code returns the row with key 3 alone when
  \<open>InclusiveEnd\<close> is true, and the rows with keys 3 and 2 when it is false.
\<close>

theorem processViewResult_descending_end_key:
  "InclusiveEnd endkey2_descending \<and>
   processViewResult collateNumbers
     \<lparr>TotalRows = 0, Rows = \<lparr>elems = map Some rows123, spare = []\<rparr>\<rparr> endkey2_descending
   = Inr \<lparr>TotalRows = 0, Rows = \<lparr>elems = [Some (rowOf ''b'' 3)], spare = []\<rparr>\<rparr> \<and>
   processViewResult collateNumbers
     \<lparr>TotalRows = 0, Rows = \<lparr>elems = map Some rows123, spare = []\<rparr>\<rparr>
     (endkey2_descending\<lparr>InclusiveEnd := False\<rparr>)
   = Inr \<lparr>TotalRows = 0,
          Rows = \<lparr>elems = [Some (rowOf ''b'' 3), Some (rowOf ''d'' 2)], spare = []\<rparr>\<rparr>"
  by code_simp

text \<open>
  The two predicates the other way round (\<^verbatim>\<open>>=\<close> for an inclusive end, \<^verbatim>\<open>>\<close> for an
  exclusive one) are not those of the code in ascending mode, where they would cut
  before the row with key 2 for an inclusive \<open>EndKey = 2\<close>; they are the ones that keep
  that row in descending mode.
\<close>

lemma endKeyTrim_claimed_example:
  "endKeyTrim collateNumbers (noParams\<lparr>EndKey := Some (JNumber 2)\<rparr>)
     \<lparr>elems = map Some rows123, spare = []\<rparr> =
     Inr \<lparr>elems = [Some (rowOf ''a'' 1), Some (rowOf ''d'' 2)], spare = [Some (rowOf ''b'' 3)]\<rparr> \<and>
   endKeyTrim_claimed collateNumbers (noParams\<lparr>EndKey := Some (JNumber 2)\<rparr>)
     \<lparr>elems = map Some rows123, spare = []\<rparr> =
     Inr \<lparr>elems = [Some (rowOf ''a'' 1)], spare = [Some (rowOf ''d'' 2), Some (rowOf ''b'' 3)]\<rparr> \<and>
   endKeyTrim_claimed collateNumbers endkey2_descending
     \<lparr>elems = map Some rows123, spare = []\<rparr> =
     Inr \<lparr>elems = [Some (rowOf ''d'' 2), Some (rowOf ''b'' 3)], spare = []\<rparr>"
  by code_simp

subsection \<open>Key overrides StartKey and EndKey\<close>

lemma startKeyTrim_fields:
  "StartKey p = StartKey q \<Longrightarrow> Descending p = Descending q \<Longrightarrow>
   startKeyTrim c p rows = startKeyTrim c q rows"
proof -
  assume a: "StartKey p = StartKey q" "Descending p = Descending q"
  have eq: "startKeyReached c p = startKeyReached c q"
    by (rule ext) (simp add: startKeyReached_def a)
  show ?thesis unfolding startKeyTrim_def a eq ..
qed

lemma endKeyTrim_fields:
  "EndKey p = EndKey q \<Longrightarrow> InclusiveEnd p = InclusiveEnd q \<Longrightarrow>
   Descending p = Descending q \<Longrightarrow> endKeyTrim c p rows = endKeyTrim c q rows"
proof -
  assume a: "EndKey p = EndKey q" "InclusiveEnd p = InclusiveEnd q" "Descending p = Descending q"
  have eq: "endKeyPassed c p = endKeyPassed c q"
    by (rule ext) (simp add: endKeyPassed_def a)
  show ?thesis unfolding endKeyTrim_def a eq ..
qed

lemma processViewResult_fields:
  assumes "StartKey (coerceKey p) = StartKey (coerceKey q)"
    and "EndKey (coerceKey p) = EndKey (coerceKey q)"
    and "InclusiveEnd p = InclusiveEnd q" and "Descending p = Descending q"
  shows "processViewResult c result p = processViewResult c result q"
proof -
  have d: "Descending (coerceKey p) = Descending (coerceKey q)"
    and i: "InclusiveEnd (coerceKey p) = InclusiveEnd (coerceKey q)"
    using assms(3,4) by (simp_all add: coerceKey_def)
  have s: "startKeyTrim c (coerceKey p) rows = startKeyTrim c (coerceKey q) rows" for rows
    by (rule startKeyTrim_fields[OF assms(1) d])
  have e: "endKeyTrim c (coerceKey p) rows = endKeyTrim c (coerceKey q) rows" for rows
    by (rule endKeyTrim_fields[OF assms(2) i d])
  show ?thesis
    unfolding processViewResult_def Let_def s e d ..
qed

text \<open>
  C6. Processing parameters whose \<open>Key\<close> is \<open>k\<close> gives the same result as processing
  the parameters with no \<open>Key\<close> and \<open>StartKey = EndKey = k\<close>, whatever \<open>StartKey\<close> and
  \<open>EndKey\<close> the parameters carried themselves.
\<close>

theorem processViewResult_Key_overrides:
  "processViewResult c result (p\<lparr>ViewParams.Key := Some k\<rparr>) =
   processViewResult c result (p\<lparr>ViewParams.Key := None, StartKey := Some k, EndKey := Some k\<rparr>)"
  by (rule processViewResult_fields) (simp_all add: coerceKey_def)

text \<open>
  The request of the repository's test, \<^verbatim>\<open>startkey=1&endkey=3&key=2\<close>, returns the
  row with key 2 alone.
\<close>

lemma processViewResult_key2_example:
  "processViewResult collateNumbers
     \<lparr>TotalRows = 0, Rows = \<lparr>elems = map Some rows123, spare = []\<rparr>\<rparr> startkey1_endkey3_key2
   = Inr \<lparr>TotalRows = 0,
          Rows = \<lparr>elems = [Some (rowOf ''d'' 2)], spare = [Some (rowOf ''b'' 3)]\<rparr>\<rparr>"
  by code_simp

subsection \<open>A start key after the end key\<close>

lemma collation_after:
  assumes "collation c" "0 \<le> c k s" "0 < c s e"
  shows "0 < c k e"
proof (rule ccontr)
  assume "\<not> 0 < c k e"
  then have ke: "c k e \<le> 0" by simp
  have "(c k s < 0) = (0 < c s k)" using assms(1) unfolding collation_def by blast
  with assms(2) have "c s k \<le> 0" by simp
  with ke have "c s e \<le> 0" using assms(1) unfolding collation_def by blast
  with assms(3) show False by simp
qed

lemma collated_dropWhile: "collated c rs \<Longrightarrow> collated c (dropWhile P rs)"
  unfolding collated_def
  by (metis sorted_wrt_append takeWhile_dropWhile_id)

text \<open>
  C4. In ascending mode, when \<open>StartKey\<close> collates strictly after \<open>EndKey\<close> (both given,
  no \<open>Key\<close>), range selection of a collated row list returns no rows.
\<close>

theorem processViewResult_start_after_end:
  assumes "collation c" and "collated c rs"
    and "ViewParams.Key p = None" and "StartKey p = Some s" and "EndKey p = Some e"
    and "0 < c (Some s) (Some e)" and "\<not> Descending p"
  shows "\<exists>res. processViewResult c \<lparr>TotalRows = t, Rows = \<lparr>elems = map Some rs, spare = sp\<rparr>\<rparr> p
                 = Inr res \<and> elems (Rows res) = []"
proof -
  let ?rs1 = "dropWhile (\<lambda>r. \<not> startKeyReached c p (Key r)) rs"
  have cp: "coerceKey p = p" using assms(3) by (simp add: coerceKey_def)
  have s1: "startKeyTrim c p \<lparr>elems = map Some rs, spare = sp\<rparr> =
              Inr \<lparr>elems = map Some ?rs1, spare = sp\<rparr>"
    using startKeyTrim_collated[OF assms(1,2) _ assms(7)] assms(4) by simp
  have c1: "collated c ?rs1" by (rule collated_dropWhile[OF assms(2)])
  have none: "takeWhile (\<lambda>r. \<not> endKeyPassed c p (Key r)) ?rs1 = []"
  proof (cases ?rs1)
    case Nil
    show ?thesis unfolding Nil by simp
  next
    case (Cons r rest)
    have "startKeyReached c p (Key (hd ?rs1))"
      using hd_dropWhile[of "\<lambda>r. \<not> startKeyReached c p (Key r)" rs] Cons by auto
    then have "0 \<le> c (Key r) (Some s)" using Cons assms(4) by (simp add: startKeyReached_def)
    then have "0 < c (Key r) (Some e)" using collation_after[OF assms(1) _ assms(6)] by blast
    then have "endKeyPassed c p (Key r)" using assms(5) by (simp add: endKeyPassed_def)
    then show ?thesis using Cons by simp
  qed
  have s2: "endKeyTrim c p \<lparr>elems = map Some ?rs1, spare = sp\<rparr> =
              Inr \<lparr>elems = [], spare = map Some ?rs1 @ sp\<rparr>"
  proof -
    have dw: "dropWhile (\<lambda>r. \<not> endKeyPassed c p (Key r)) ?rs1 = ?rs1"
      using none by (metis append_Nil takeWhile_dropWhile_id)
    show ?thesis
      using endKeyTrim_cut[OF assms(1) c1, of p sp] assms(5,7) by (simp add: none dw)
  qed
  show ?thesis
    using assms(7) by (simp add: processViewResult_def cp s1 s2)
qed

theorem processViewResult_start_after_end_witness:
  "collation collateNumbers \<and> collated collateNumbers rows123 \<and>
   ViewParams.Key startkey3_endkey1 = None \<and>
   StartKey startkey3_endkey1 = Some (JNumber 3) \<and>
   EndKey startkey3_endkey1 = Some (JNumber 1) \<and>
   0 < collateNumbers (Some (JNumber 3)) (Some (JNumber 1)) \<and>
   \<not> Descending startkey3_endkey1 \<and>
   (\<exists>res. processViewResult collateNumbers
            \<lparr>TotalRows = 0, Rows = \<lparr>elems = map Some rows123, spare = []\<rparr>\<rparr> startkey3_endkey1
          = Inr res \<and> elems (Rows res) = [])"
proof -
  have k: "ViewParams.Key startkey3_endkey1 = None"
    and s: "StartKey startkey3_endkey1 = Some (JNumber 3)"
    and e: "EndKey startkey3_endkey1 = Some (JNumber 1)"
    and d: "\<not> Descending startkey3_endkey1"
    by (simp_all add: startkey3_endkey1_def noParams_def)
  have g: "0 < collateNumbers (Some (JNumber 3)) (Some (JNumber 1))"
    by (simp add: collateNumbers_def collatesBefore_def)
  from processViewResult_start_after_end
         [OF collation_collateNumbers collated_rows123 k s e g d, of 0 "[]"]
  show ?thesis using collation_collateNumbers collated_rows123 k s e g d by blast
qed

subsection \<open>Descending mode with a start key past every row\<close>

text \<open>
  When every key collates before \<open>StartKey\<close>, the search returns the length and the
  descending trim asks for one element more than the slice has.
\<close>

lemma startKeyTrim_descending_past_all:
  assumes "StartKey p \<noteq> None" and "Descending p"
    and "\<forall>r\<in>set rs. c (Key r) (StartKey p) < 0"
  shows "startKeyTrim c p \<lparr>elems = map Some rs, spare = sp\<rparr> =
           slice_upto \<lparr>elems = map Some rs, spare = sp\<rparr> (length rs + 1)"
proof -
  let ?Q = "startKeyReached c p"
  have never: "\<not> ?Q (Key r)" if "r \<in> set rs" for r
    using assms(3) that by (auto simp: startKeyReached_def)
  then have mono: "\<forall>a b. a \<le> b \<and> b < length rs \<and> ?Q (Key (rs ! a)) \<longrightarrow> ?Q (Key (rs ! b))"
    by (metis nth_mem order_le_less_trans)
  from Search_rows[OF mono, of sp]
  obtain m where m: "Search (length rs)
            (\<lambda>i. case keyAt \<lparr>elems = map Some rs, spare = sp\<rparr> i of
                   Inl e \<Rightarrow> Inl e | Inr k \<Rightarrow> Inr (?Q k)) = Inr m"
      "m \<le> length rs" "take m rs = takeWhile (\<lambda>r. \<not> ?Q (Key r)) rs"
    by blast
  have "takeWhile (\<lambda>r. \<not> ?Q (Key r)) rs = rs" using never by (simp add: takeWhile_eq_all_conv)
  with m(2,3) have "m = length rs"
    by (metis length_take min.absorb2)
  with m(1) assms(1,2) show ?thesis by (simp add: startKeyTrim_def len_def)
qed

lemma slice_upto_past_length:
  "slice_upto \<lparr>elems = xs, spare = sp\<rparr> (length xs + 1) =
     (case sp of
        [] \<Rightarrow> Inl SliceBoundsOutOfRange
      | x # sp' \<Rightarrow> Inr \<lparr>elems = xs @ [x], spare = sp'\<rparr>)"
  by (cases sp) (simp_all add: slice_upto_def len_def cap_def)

text \<open>
  C10 does not hold of the code. With \<open>Descending\<close> and a \<open>StartKey\<close> after every key,
  the search returns \<^verbatim>\<open>len(result.Rows)\<close> and the code slices
  \<^verbatim>\<open>result.Rows[:i+1]\<close>, one past the length: a panic when the slice is at capacity,
  and otherwise an element of the backing array beyond the length (here a nil pointer)
  becomes a row of the result.
\<close>

theorem processViewResult_descending_start_past_all:
  "processViewResult collateNumbers
     \<lparr>TotalRows = 0, Rows = \<lparr>elems = map Some rows123, spare = []\<rparr>\<rparr> startkey4_descending
   = Inl SliceBoundsOutOfRange \<and>
   processViewResult collateNumbers
     \<lparr>TotalRows = 0, Rows = \<lparr>elems = map Some rows123, spare = [None]\<rparr>\<rparr> startkey4_descending
   = Inr \<lparr>TotalRows = 0,
          Rows = \<lparr>elems = [None, Some (rowOf ''b'' 3), Some (rowOf ''d'' 2), Some (rowOf ''a'' 1)],
                  spare = []\<rparr>\<rparr>"
  by code_simp

subsection \<open>Pagination\<close>

lemma skip_step:
  "(if 0 < (s::int) then
      slice_from rows (nat (if int (len rows) < s then int (len rows) else s))
    else Inr rows) = Inr (rows\<lparr>elems := drop (nat s) (elems rows)\<rparr>)"
  by (auto simp: slice_from_def len_def)

lemma limit_step:
  "(if 0 < (l::int) then
      slice_upto rows (nat (if int (len rows) < l then int (len rows) else l))
    else Inr rows) =
   Inr (if 0 < l then \<lparr>elems = take (nat l) (elems rows),
                        spare = drop (nat l) (elems rows) @ spare rows\<rparr> else rows)"
  by (auto simp: slice_upto_def len_def)

text \<open>
  C5 (as amended). Pagination drops the first \<open>Skip\<close> rows, then keeps at most \<open>Limit\<close>
  rows when \<open>Limit\<close> is positive and all of them when \<open>Limit\<close> is zero (or negative);
  \<open>TotalRows\<close> is the number of rows that remain.
\<close>

theorem paginate_skip_then_limit:
  "\<exists>res. paginate p vr = Inr res \<and>
     elems (Rows res) =
       (if 0 < Limit p then take (nat (Limit p)) (drop (nat (Skip p)) (elems (Rows vr)))
        else drop (nat (Skip p)) (elems (Rows vr))) \<and>
     TotalRows res = int (length (elems (Rows res)))"
  unfolding paginate_def Let_def skip_step
  by (simp only: limit_step) (simp add: len_def)

text \<open>
  C5 as stated does not hold for the request \<^verbatim>\<open>limit=0\<close>: the three rows are all
  returned, where truncating to at most \<open>Limit\<close> rows would leave none.
\<close>

theorem paginate_limit_zero_counterexample:
  "Limit limit0 = 0 \<and>
   paginate limit0 \<lparr>TotalRows = 0, Rows = \<lparr>elems = map Some rows123, spare = []\<rparr>\<rparr> =
     Inr \<lparr>TotalRows = 3, Rows = \<lparr>elems = map Some rows123, spare = []\<rparr>\<rparr> \<and>
   take (nat (Limit limit0)) (drop (nat (Skip limit0)) (map Some rows123)) = []"
  by (simp add: paginate_def limit0_def noParams_def slice_from_def slice_upto_def len_def
      rows123_def)

subsection \<open>Reduce without grouping\<close>

declare group_scan.simps [simp del]

lemma collation_refl: "collation c \<Longrightarrow> c a a = 0"
proof -
  assume "collation c"
  then have "(c a a < 0) = (0 < c a a)" unfolding collation_def by blast
  then show ?thesis by (cases "c a a < 0") auto
qed

lemma ArrayPrefix_level0: "level \<le> 0 \<Longrightarrow> ArrayPrefix k level = None"
  by (simp add: ArrayPrefix_def)

lemma group_scan_level0:
  "\<not> c None None < 0 \<Longrightarrow> level \<le> 0 \<Longrightarrow> j \<le> length rs \<Longrightarrow>
   group_scan c None level (map Some rs) j ks vs =
     Inr (length rs, ks @ map Key (drop j rs), vs @ map Value (drop j rs))"
proof (induction "length rs - j" arbitrary: j ks vs)
  case 0
  then show ?case by (subst group_scan.simps) simp
next
  case (Suc n)
  then have j: "j < length rs" by simp
  have d: "drop j rs = rs ! j # drop (j + 1) rs" using j by (simp add: Cons_nth_drop_Suc)
  have "group_scan c None level (map Some rs) j ks vs =
        group_scan c None level (map Some rs) (j + 1) (ks @ [Key (rs ! j)]) (vs @ [Value (rs ! j)])"
    using j Suc.prems by (subst group_scan.simps) (simp add: ArrayPrefix_level0)
  also have "\<dots> = Inr (length rs, (ks @ [Key (rs ! j)]) @ map Key (drop (j + 1) rs),
                        (vs @ [Value (rs ! j)]) @ map Value (drop (j + 1) rs))"
    using Suc.hyps(2) j by (intro Suc.hyps(1) Suc.prems(1,2)) simp_all
  finally show ?case by (simp add: d)
qed

text \<open>
  C3. For a non-empty row list, when the view has a reduce function, \<open>Reduce\<close> is not
  false and neither \<open>Group\<close> nor \<open>GroupLevel\<close> is set, the reduce stage returns exactly
  one row: its key is null and its value is what the reduce function returns for the
  keys and the values of all the rows, with \<^verbatim>\<open>rereduce = false\<close>.
\<close>

theorem reduce_without_grouping:
  assumes "collation c" and "rs \<noteq> []"
    and "viewReduce \<noteq> []" and "Reduce p" and "\<not> Group p" and "GroupLevel p \<le> 0"
    and "OttoNewFunction o' viewReduce = Inr fnv"
    and "runReduce o' fnv (map Key rs) (map Value rs) = Inr v"
  shows "\<exists>res. reduceOrDocify o' c getItem viewReduce
                 \<lparr>TotalRows = t, Rows = \<lparr>elems = map Some rs, spare = sp\<rparr>\<rparr> p = Some (Inr res) \<and>
               elems (Rows res) = [Some \<lparr>Id' = [], Key = None, Value = v, Doc = None\<rparr>]"
proof -
  have nn: "\<not> c None None < 0" using collation_refl[OF assms(1), of None] by simp
  have lvl: "(if 0 < GroupLevel p then GroupLevel p else if Group p then 0x7fffffff else 0) = 0"
    using assms(5,6) by simp
  have scan: "group_scan c None 0 (map Some rs) 0 [] [] = Inr (length rs, map Key rs, map Value rs)"
    using group_scan_level0[where c = c and level = 0 and j = 0 and rs = rs and ks = "[]" and vs = "[]"] nn
    by simp
  have loop: "reduce_loop o' fnv c 0 (map Some rs) 0 [] =
              Some (Inr [\<lparr>Id' = [], Key = None, Value = v, Doc = None\<rparr>])"
    using assms(2,8) scan
    by (subst reduce_loop.simps, subst reduce_loop.simps)
       (simp add: ArrayPrefix_level0)
  show ?thesis
    using assms(3,4,7) by (simp add: reduceOrDocify_def reduceViewResult_def lvl loop)
qed

theorem reduce_without_grouping_witness:
  "collation collateNumbers \<and> rowsAmount1 \<noteq> [] \<and> sumSource \<noteq> [] \<and> Reduce noParams \<and>
   \<not> Group noParams \<and> GroupLevel noParams \<le> 0 \<and>
   OttoNewFunction sumReducer sumSource = Inr () \<and>
   runReduce sumReducer () (map Key rowsAmount1) (map Value rowsAmount1) = Inr (Some (JNumber 4)) \<and>
   (\<exists>res. reduceOrDocify sumReducer collateNumbers (\<lambda>i. NotSuccess) sumSource
            \<lparr>TotalRows = 0, Rows = \<lparr>elems = map Some rowsAmount1, spare = []\<rparr>\<rparr> noParams
          = Some (Inr res) \<and>
          elems (Rows res) = [Some \<lparr>Id' = [], Key = None, Value = Some (JNumber 4), Doc = None\<rparr>])"
proof -
  have r: "rowsAmount1 \<noteq> []" by (simp add: rowsAmount1_def)
  have s: "sumSource \<noteq> []" by (simp add: sumSource_def)
  have p: "Reduce noParams" "\<not> Group noParams" "GroupLevel noParams \<le> 0"
    by (simp_all add: noParams_def)
  have f: "OttoNewFunction sumReducer sumSource = Inr ()" by (simp add: sumReducer_def)
  have v: "runReduce sumReducer () (map Key rowsAmount1) (map Value rowsAmount1)
             = Inr (Some (JNumber 4))"
    by (simp add: runReduce_def sumReducer_def rowsAmount1_def rowOf_def)
  from reduce_without_grouping[OF collation_collateNumbers r s p f v, of "\<lambda>i. NotSuccess" 0 "[]"]
  show ?thesis using collation_collateNumbers r s p f v by blast
qed

subsection \<open>Errors of the map function\<close>







text \<open>
  The two other ways the visit of a partition ends: an error of the visit aborts the
  request though no document made the map function throw; a document that does not
  convert ends the visit of its partition, so that the 101 throwing documents after it
  are not counted and the request is not aborted.
\<close>

lemma mapPhase_other_paths_example:
  "mapPhase alwaysThrows (bucketOf [\<lparr>items = [], visitErr = Some (Err ''store'')\<rparr>]) =
     Inl (ViewVisitError (Err ''store'')) \<and>
   mapPhase throwsUnlessBad
     (bucketOf [\<lparr>items = (''bad'', ''{}'') # replicate 101 (''doc'', ''{}''), visitErr = None\<rparr>]) =
     Inr []"
  by code_simp


subsection \<open>The _revs_diff reply\<close>

lemma revsDiffResponse_loop_lookup:
  "distinct (map fst req) \<Longrightarrow>
   revsDiffResponse_loop req resp k =
     (case map_of req k of
        Some v \<Rightarrow> Some (Some (JObject [(''missing'', v)]))
      | None \<Rightarrow> resp k)"
proof (induction req arbitrary: resp)
  case Nil
  then show ?case by simp
next
  case (Cons kv req)
  obtain key val where kv: "kv = (key, val)" by (cases kv)
  have "key \<notin> fst ` set req" using Cons.prems by (simp add: kv)
  then have none: "map_of req key = None" by (simp add: map_of_eq_None_iff)
  show ?case
    using Cons.prems none by (auto simp: kv Cons.IH split: option.split)
qed

text \<open>
  C8. When the bucket is found and the body decodes, the reply is an object whose keys
  are the keys of the request, each mapped to \<^verbatim>\<open>{"missing": v}\<close> for its value \<open>v\<close>
  in the request.
\<close>

theorem couchDbRevsDiff_echo:
  assumes "distinct (map fst req)"
  shows "\<exists>resp. couchDbRevsDiff (Some b) (Inr req) = Some (RevsDiffJson resp) \<and>
           dom resp = fst ` set req \<and>
           (\<forall>k v. (k, v) \<in> set req \<longrightarrow> resp k = Some (Some (JObject [(''missing'', v)])))"
proof -
  let ?resp = "revsDiffResponse_loop req Map.empty"
  have l: "?resp k = (case map_of req k of
                        Some v \<Rightarrow> Some (Some (JObject [(''missing'', v)])) | None \<Rightarrow> None)" for k
    using revsDiffResponse_loop_lookup[OF assms, of Map.empty k] by simp
  have d: "dom ?resp = fst ` set req"
    by (auto simp: l dom_def map_of_eq_None_iff split: option.splits)
  have v: "?resp k = Some (Some (JObject [(''missing'', v)]))" if "(k, v) \<in> set req" for k v
    using that assms by (simp add: l)
  show ?thesis using d v by (simp add: couchDbRevsDiff_def)
qed

theorem couchDbRevsDiff_echo_witness:
  "distinct (map fst docaRequest) \<and>
   (\<exists>resp. couchDbRevsDiff (Some ()) (Inr docaRequest) = Some (RevsDiffJson resp) \<and>
      dom resp = {''doca''} \<and>
      resp ''doca'' =
        Some (Some (JObject [(''missing'', Some (JString ''1-0000dac6571554820000000000000000''))])))"
proof -
  have d: "distinct (map fst docaRequest)" by (simp add: docaRequest_def)
  from couchDbRevsDiff_echo[OF d, of "()"]
  obtain resp where r: "couchDbRevsDiff (Some ()) (Inr docaRequest) = Some (RevsDiffJson resp)"
    "dom resp = fst ` set docaRequest"
    "\<forall>k v. (k, v) \<in> set docaRequest \<longrightarrow> resp k = Some (Some (JObject [(''missing'', v)]))"
    by blast
  have "dom resp = {''doca''}" using r(2) by (simp add: docaRequest_def)
  moreover have "resp ''doca'' =
        Some (Some (JObject [(''missing'', Some (JString ''1-0000dac6571554820000000000000000''))]))"
    using r(3) by (simp add: docaRequest_def)
  ultimately show ?thesis using d r(1) by blast
qed

subsection \<open>Expiration\<close>

text \<open>
  C7. \<open>computeExp 0 now = 0\<close>; an expiration above 30 days is kept; one between 1 second
  and 30 days is added to the current time. The witness takes the three cases of the
  repository's test.
\<close>

theorem computeExp_cases:
  "computeExp 0 now = 0 \<and>
   (30 * 24 * 3600 < e \<longrightarrow> computeExp e now = e) \<and>
   (0 < e \<and> e \<le> 30 * 24 * 3600 \<longrightarrow> computeExp e now = now + e)"
  by (auto simp: computeExp_def)

theorem computeExp_cases_witness:
  "computeExp 0 1362506460 = 0 \<and>
   (30 * 24 * 3600 :: 32 word) < 838424824 \<and> computeExp 838424824 1362506460 = 838424824 \<and>
   (0 :: 32 word) < 300 \<and> (300 :: 32 word) \<le> 30 * 24 * 3600 \<and>
   computeExp 300 1362506460 = 1362506760"
proof -
  have a: "(30 * 24 * 3600 :: 32 word) < 838424824" by simp
  have b: "(0 :: 32 word) < 300 \<and> (300 :: 32 word) \<le> 30 * 24 * 3600" by simp
  from computeExp_cases[of 1362506460 838424824] a
  have 1: "computeExp 0 1362506460 = 0" "computeExp 838424824 1362506460 = 838424824"
    by blast+
  from computeExp_cases[of 1362506460 300] b
  have "computeExp 300 1362506460 = 1362506460 + 300" by blast
  then have 2: "computeExp 300 1362506460 = 1362506760" by simp
  from a b 1 2 show ?thesis by blast
qed

subsection \<open>The constructor of the periodic multiplexer\<close>

text \<open>
  C9. The constructor returns nil exactly when the period or the worker count is zero.
\<close>

theorem newPeriodically_nil_iff:
  "(newPeriodically p w = None) = (p = 0 \<or> w = 0)"
  by (simp add: newPeriodically_def)

end
